theory Spec2Isabelle
  imports Main "HOL-Library.Sublist" "HOL-Library.Char_ord" "HOL-Library.List_Lexorder"
begin

section \<open>Text processing pipeline of \<^verbatim>\<open>TextProcessor\<close>\<close>

text \<open>
  The program is one Python class, \<^verbatim>\<open>TextProcessor\<close>, whose constructor runs a
  pipeline over a text: tokenize, lemmatize, drop stopwords, stem, extract capitalised
  words, count tokens and trigrams. A Python \<^verbatim>\<open>str\<close> is modelled as a \<open>string\<close>
  whose characters are the code points below 256; on them \<^verbatim>\<open>str.lower\<close> and the
  regular expression classes \<^verbatim>\<open>\w\<close>, \<^verbatim>\<open>[a-zA-Z]\<close> and \<^verbatim>\<open>[A-Z]\<close> are written out.
  The stopword set and the Porter stemmer come from a library outside the program and
  are parameters of every function that uses them.
\<close>

subsection \<open>Characters\<close>

definition code :: "char \<Rightarrow> nat" where
  "code c = of_char c"

definition is_upper :: "char \<Rightarrow> bool" where
  \<comment> \<open>the class \<^verbatim>\<open>[A-Z]\<close>\<close>
  "is_upper c = (65 \<le> code c \<and> code c \<le> 90)"

definition is_lower :: "char \<Rightarrow> bool" where
  \<comment> \<open>the class \<^verbatim>\<open>[a-z]\<close>\<close>
  "is_lower c = (97 \<le> code c \<and> code c \<le> 122)"

definition is_letter :: "char \<Rightarrow> bool" where
  \<comment> \<open>the class \<^verbatim>\<open>[a-zA-Z]\<close>\<close>
  "is_letter c = (is_lower c \<or> is_upper c)"

definition is_word :: "char \<Rightarrow> bool" where
  \<comment> \<open>the class \<^verbatim>\<open>\w\<close> of a text pattern: alphanumeric or underscore; above 127 these are
      the letters, the superscript digits and the fractions of Latin-1\<close>
  "is_word c = (let n = code c in
     (48 \<le> n \<and> n \<le> 57) \<or> is_letter c \<or> n = 95 \<or>
     n = 170 \<or> n = 178 \<or> n = 179 \<or> n = 181 \<or> n = 185 \<or> n = 186 \<or>
     n = 188 \<or> n = 189 \<or> n = 190 \<or>
     (192 \<le> n \<and> n \<le> 214) \<or> (216 \<le> n \<and> n \<le> 246) \<or> (248 \<le> n \<and> n \<le> 255))"

definition lower_char :: "char \<Rightarrow> char" where
  \<comment> \<open>\<^verbatim>\<open>str.lower\<close> on one character: the capitals of ASCII and of Latin-1 move up by 32\<close>
  "lower_char c = (let n = code c in
     if (65 \<le> n \<and> n \<le> 90) \<or> (192 \<le> n \<and> n \<le> 222 \<and> n \<noteq> 215)
     then char_of (n + 32) else c)"

definition lower :: "string \<Rightarrow> string" where
  "lower s = map lower_char s"

subsection \<open>The lemmatizer\<close>

definition endswith :: "string \<Rightarrow> string \<Rightarrow> bool" where
  \<comment> \<open>\<^verbatim>\<open>word.endswith(suf)\<close>\<close>
  "endswith w suf = (length suf \<le> length w \<and> drop (length w - length suf) w = suf)"

definition drop_last :: "nat \<Rightarrow> string \<Rightarrow> string" where
  \<comment> \<open>the slice \<^verbatim>\<open>word[:-k]\<close> for \<open>k > 0\<close>\<close>
  "drop_last k w = take (length w - k) w"

definition simple_lemmatize :: "string \<Rightarrow> string" where
  "simple_lemmatize w =
     (if endswith w ''ies'' \<and> length w > 3 then drop_last 3 w @ ''y''
      else if endswith w ''es'' then drop_last 2 w
      else if endswith w ''ed'' \<and> length w > 4 then drop_last 2 w
      else if endswith w ''ing'' \<and> length w > 5 then drop_last 3 w
      else if endswith w ''s'' \<and> length w > 3 then drop_last 1 w
      else w)"

subsection \<open>Regular expression search\<close>

text \<open>
  Both patterns of the program have the shape \<^verbatim>\<open>\b F L* \b\<close>, where \<^verbatim>\<open>L\<close> is the class
  \<^verbatim>\<open>[a-zA-Z]\<close> and \<^verbatim>\<open>F\<close> is \<^verbatim>\<open>[a-zA-Z]\<close> (the tokenizer's \<^verbatim>\<open>\b[a-zA-Z]+\b\<close>) or
  \<^verbatim>\<open>[A-Z]\<close> (the entity pattern \<^verbatim>\<open>\b[A-Z][a-zA-Z]*\b\<close>). \<^verbatim>\<open>re.findall\<close> scans from
  the left: at each position it tries a match, which takes the longest run the classes
  allow and backtracks to shorter ones until the closing \<^verbatim>\<open>\b\<close> holds; after a match it
  goes on behind it, otherwise one character further.
\<close>

definition opt_nth :: "string \<Rightarrow> nat \<Rightarrow> char option" where
  "opt_nth s i = (if i < length s then Some (s ! i) else None)"

definition is_boundary :: "char option \<Rightarrow> char option \<Rightarrow> bool" where
  \<comment> \<open>\<^verbatim>\<open>\b\<close> between two neighbours; \<open>None\<close> is the start or the end of the text\<close>
  "is_boundary a b = ((case a of None \<Rightarrow> False | Some c \<Rightarrow> is_word c) \<noteq>
                      (case b of None \<Rightarrow> False | Some c \<Rightarrow> is_word c))"

definition end_boundary :: "nat \<Rightarrow> string \<Rightarrow> bool" where
  \<comment> \<open>\<^verbatim>\<open>\b\<close> behind the first \<open>k\<close> characters of \<open>s\<close>, for \<open>k > 0\<close>\<close>
  "end_boundary k s = is_boundary (opt_nth s (k - 1)) (opt_nth s k)"

primrec try_ends :: "nat \<Rightarrow> string \<Rightarrow> nat option" where
  \<comment> \<open>backtracking: the longest length from \<open>k\<close> down to 1 with \<^verbatim>\<open>\b\<close> behind it\<close>
  "try_ends 0 s = None"
| "try_ends (Suc k) s = (if end_boundary (Suc k) s then Some (Suc k) else try_ends k s)"

definition longest :: "(char \<Rightarrow> bool) \<Rightarrow> string \<Rightarrow> nat" where
  \<comment> \<open>how far \<^verbatim>\<open>F L*\<close> can reach from the start of \<open>s\<close>\<close>
  "longest first s = (case s of [] \<Rightarrow> 0
     | c # cs \<Rightarrow> if first c then Suc (length (takeWhile is_letter cs)) else 0)"

definition match_at :: "(char \<Rightarrow> bool) \<Rightarrow> char option \<Rightarrow> string \<Rightarrow> nat option" where
  \<comment> \<open>the length of the match at the start of \<open>s\<close>, with \<open>prev\<close> the character before\<close>
  "match_at first prev s =
     (if is_boundary prev (opt_nth s 0) then try_ends (longest first s) s else None)"

function findall :: "(char \<Rightarrow> bool) \<Rightarrow> char option \<Rightarrow> string \<Rightarrow> string list" where
  "findall first prev [] = []"
| "findall first prev (c # cs) =
     (case match_at first prev (c # cs) of
        Some k \<Rightarrow> take k (c # cs) # findall first (opt_nth (c # cs) (k - 1)) (drop k (c # cs))
      | None \<Rightarrow> findall first (Some c) cs)"
  by pat_completeness auto
termination
proof (relation "measure (\<lambda>(first, prev, s). length s)")
  show "wf (measure (\<lambda>(first, prev, s). length s))"
    by simp
next
  fix first :: "char \<Rightarrow> bool" and prev :: "char option" and c :: char and cs :: string
    and k :: nat
  assume m: "match_at first prev (c # cs) = Some k"
  have pos: "try_ends n s = Some j \<Longrightarrow> 0 < j" for n s j
    by (induction n) (auto split: if_splits)
  from m have "0 < k"
    by (auto simp: match_at_def split: if_splits dest: pos)
  then show "((first, opt_nth (c # cs) (k - 1), drop k (c # cs)), (first, prev, c # cs))
      \<in> measure (\<lambda>(first, prev, s). length s)"
    by simp
next
  fix first :: "char \<Rightarrow> bool" and prev :: "char option" and c :: char and cs :: string
  show "((first, Some c, cs), (first, prev, c # cs)) \<in> measure (\<lambda>(first, prev, s). length s)"
    by simp
qed

subsection \<open>The pipeline stages\<close>

definition tokenize :: "string \<Rightarrow> string list" where
  \<comment> \<open>\<^verbatim>\<open>re.findall(r'\b[a-zA-Z]+\b', self.raw_text.lower())\<close>\<close>
  "tokenize raw_text = findall is_letter None (lower raw_text)"

definition keep_names :: "string list" where
  "keep_names = [''romeo'', ''juliet'', ''verona'']"

definition process_tokens :: "string set \<Rightarrow> (string \<Rightarrow> string) \<Rightarrow> string list \<Rightarrow> string list" where
  "process_tokens stop_words stem tokens =
     (let lemmatized = map simple_lemmatize tokens;
          no_stops = filter (\<lambda>t. t \<notin> stop_words \<or> t \<in> set keep_names) lemmatized
      in map stem no_stops)"

definition blacklist :: "string list" where
  "blacklist = [''The'', ''And'', ''In'', ''A'', ''But'', ''As'', ''With'', ''For'', ''To'',
                ''At'', ''On'']"

definition extract_named_entities :: "string \<Rightarrow> string set" where
  \<comment> \<open>\<^verbatim>\<open>re.findall(r'\b[A-Z][a-zA-Z]*\b', self.raw_text)\<close>, then the set without the blacklist\<close>
  "extract_named_entities raw_text =
     (let candidates = findall is_upper None raw_text
      in set (filter (\<lambda>ent. ent \<notin> set blacklist) candidates))"

subsection \<open>Counting\<close>

text \<open>
  A \<^verbatim>\<open>Counter\<close> is a dictionary, which keeps its keys in the order of their first
  insertion: an association list with one entry per key. \<^verbatim>\<open>Counter(iterable)\<close> adds
  one to the entry of each element in turn, and \<^verbatim>\<open>most_common(n)\<close> returns the first
  \<open>n\<close> entries of the stable sort by descending count (none for \<open>n \<le> 0\<close>).
\<close>

fun bump :: "'a \<Rightarrow> ('a \<times> nat) list \<Rightarrow> ('a \<times> nat) list" where
  "bump x [] = [(x, 1)]"
| "bump x ((k, c) # kcs) = (if k = x then (k, Suc c) # kcs else (k, c) # bump x kcs)"

definition Counter :: "'a list \<Rightarrow> ('a \<times> nat) list" where
  "Counter xs = fold bump xs []"

definition most_common :: "int \<Rightarrow> ('a \<times> nat) list \<Rightarrow> ('a \<times> nat) list" where
  "most_common n items = take (nat n) (sort_key (\<lambda>kc. - int (snd kc)) items)"

function zip_star :: "'a list list \<Rightarrow> 'a list list" where
  \<comment> \<open>\<^verbatim>\<open>zip(*ls)\<close>: tuples of the heads until one of the lists is exhausted; nothing for no list\<close>
  "zip_star ls = (if ls = [] \<or> [] \<in> set ls then [] else map hd ls # zip_star (map tl ls))"
  by pat_completeness auto
termination
proof (relation "measure (\<lambda>ls. length (hd ls))")
  show "wf (measure (\<lambda>ls :: 'a list list. length (hd ls)))"
    by simp
next
  fix ls :: "'a list list"
  assume "\<not> (ls = [] \<or> [] \<in> set ls)"
  then obtain l rest where ls: "ls = l # rest" and l: "l \<noteq> []"
    by (cases ls) auto
  then show "(map tl ls, ls) \<in> measure (\<lambda>ls. length (hd ls))"
    by simp
qed

declare zip_star.simps [simp del]

definition compute_trigrams :: "int \<Rightarrow> string list \<Rightarrow> (string list \<times> nat) list" where
  "compute_trigrams n processed =
     (if int (length processed) < n then []
      else Counter (zip_star (map (\<lambda>i. drop i processed) [0..<nat n])))"

definition count_of :: "('a \<times> nat) list \<Rightarrow> 'a \<Rightarrow> nat" where
  \<comment> \<open>\<^verbatim>\<open>counter[key]\<close>: the count of a key, 0 for a key that is absent\<close>
  "count_of items k = (case map_of items k of None \<Rightarrow> 0 | Some n \<Rightarrow> n)"

definition windows :: "nat \<Rightarrow> 'a list \<Rightarrow> 'a list list" where
  \<comment> \<open>the contiguous windows of \<open>n\<close> consecutive elements, sliding by one, for \<open>n > 0\<close>\<close>
  "windows n xs = map (\<lambda>j. take n (drop j xs)) [0..<Suc (length xs) - n]"

subsection \<open>The processor\<close>

record processor =
  name :: string
  raw_text :: string
  tokens :: "string list"
  processed_tokens :: "string list"
  named_entities :: "string set"
  token_freq :: "(string \<times> nat) list"
  trigram_freq :: "(string list \<times> nat) list"

definition construct :: "string set \<Rightarrow> (string \<Rightarrow> string) \<Rightarrow> string \<Rightarrow> string \<Rightarrow> processor" where
  \<comment> \<open>\<^verbatim>\<open>__init__\<close>, with the library's stopword set and stemmer as parameters\<close>
  "construct stop_words stem text nm =
     (let toks = tokenize text;
          processed = process_tokens stop_words stem toks
      in \<lparr>name = nm, raw_text = text, tokens = toks, processed_tokens = processed,
          named_entities = extract_named_entities text,
          token_freq = Counter processed,
          trigram_freq = compute_trigrams 3 processed\<rparr>)"

text \<open>
  The methods take the processor and return their result with the processor as they
  leave it.
\<close>

definition top_tokens :: "int \<Rightarrow> processor \<Rightarrow> (string \<times> nat) list \<times> processor" where
  "top_tokens n p = (most_common n (token_freq p), p)"

definition top_trigrams :: "int \<Rightarrow> processor \<Rightarrow> (string list \<times> nat) list \<times> processor" where
  "top_trigrams k p = (most_common k (trigram_freq p), p)"

fun join_space :: "string list \<Rightarrow> string" where
  \<comment> \<open>\<^verbatim>\<open>' '.join(trigram)\<close>\<close>
  "join_space [] = []"
| "join_space [w] = w"
| "join_space (w # ws) = w @ '' '' @ join_space ws"

record report =
  header :: string
  total_tokens :: nat
  entity_count :: nat
  entities :: "string list"
  token_lines :: "(string \<times> nat) list"
  trigram_lines :: "(string \<times> nat) list"

definition summary :: "processor \<Rightarrow> report \<times> processor" where
  \<comment> \<open>the values \<^verbatim>\<open>summary\<close> prints, in the order of its lines\<close>
  "summary p =
     (let (toks, p1) = top_tokens 20 p;
          (tris, p2) = top_trigrams 10 p1
      in (\<lparr>header = name p,
           total_tokens = length (tokens p),
           entity_count = card (named_entities p),
           entities = sorted_list_of_set (named_entities p),
           token_lines = toks,
           trigram_lines = map (\<lambda>(trigram, count). (join_space trigram, count)) tris\<rparr>, p2))"

datatype call = TopTokens int | TopTrigrams int | Summary

fun run_call :: "call \<Rightarrow> processor \<Rightarrow> processor" where
  "run_call (TopTokens n) p = snd (top_tokens n p)"
| "run_call (TopTrigrams k) p = snd (top_trigrams k p)"
| "run_call Summary p = snd (summary p)"

definition run_calls :: "call list \<Rightarrow> processor \<Rightarrow> processor" where
  "run_calls cs p = fold run_call cs p"

subsection \<open>The specification's reading of the two scans\<close>

function runs :: "(char \<Rightarrow> bool) \<Rightarrow> string \<Rightarrow> string list" where
  \<comment> \<open>the maximal runs of characters of a class, from left to right\<close>
  "runs P [] = []"
| "runs P (c # cs) =
     (if P c then (c # takeWhile P cs) # runs P (dropWhile P cs) else runs P cs)"
  by pat_completeness auto
termination
  by (relation "measure (\<lambda>(P, s). length s)") (auto simp: length_dropWhile_le less_Suc_eq_le)

definition starts_with :: "(char \<Rightarrow> bool) \<Rightarrow> string \<Rightarrow> bool" where
  "starts_with P w = (case w of [] \<Rightarrow> False | c # cs \<Rightarrow> P c)"

definition in_word :: "char option \<Rightarrow> bool" where
  \<comment> \<open>the neighbour exists and is in \<^verbatim>\<open>\w\<close>\<close>
  "in_word a = (case a of None \<Rightarrow> False | Some c \<Rightarrow> is_word c)"

definition whole :: "(char \<Rightarrow> bool) \<Rightarrow> string \<Rightarrow> bool" where
  \<comment> \<open>a run that the pattern \<^verbatim>\<open>F L*\<close> matches from its first to its last character\<close>
  "whole first w = (starts_with first w \<and> list_all is_letter w)"


definition spec_named_entities :: "string \<Rightarrow> string set" where
  \<comment> \<open>"maximal runs of letters where the first character is uppercase", without the blacklist\<close>
  "spec_named_entities text =
     set (filter (\<lambda>ent. ent \<notin> set blacklist) (filter (starts_with is_upper) (runs is_letter text)))"

section \<open>Properties\<close>

subsection \<open>What the scans find\<close>

lemma is_letter_word: "is_letter c \<Longrightarrow> is_word c"
  unfolding is_word_def Let_def by blast

lemma is_upper_letter: "is_upper c \<Longrightarrow> is_letter c"
  by (simp add: is_letter_def)

lemma is_boundary_in_word: "is_boundary a b \<longleftrightarrow> in_word a \<noteq> in_word b"
  by (simp add: is_boundary_def in_word_def)

lemma try_ends_letters:
  "\<forall>i<n. i < length s \<and> is_letter (s ! i) \<Longrightarrow>
   try_ends n s = (if 0 < n \<and> end_boundary n s then Some n else None)"
proof (induction n)
  case 0
  show ?case by simp
next
  case (Suc n)
  then have ih: "try_ends n s = (if 0 < n \<and> end_boundary n s then Some n else None)"
    by simp
  have "\<not> end_boundary n s" if "0 < n"
  proof -
    from that Suc.prems have a: "n - 1 < length s" "is_letter (s ! (n - 1))"
      and b: "n < length s" "is_letter (s ! n)"
      by (simp_all add: less_Suc_eq)
    then show ?thesis
      by (simp add: end_boundary_def opt_nth_def is_boundary_def is_letter_word)
  qed
  with ih have "try_ends n s = None" by auto
  then show ?case by simp
qed

lemma takeWhile_sub_eq:
  assumes "\<And>c. P c \<Longrightarrow> Q c"
  shows "list_all P (takeWhile Q cs) \<Longrightarrow> takeWhile P cs = takeWhile Q cs \<and> dropWhile P cs = dropWhile Q cs"
proof (induction cs)
  case Nil
  show ?case by simp
next
  case (Cons c cs)
  show ?case
  proof (cases "Q c")
    case True
    with Cons.prems have "P c" "list_all P (takeWhile Q cs)" by simp_all
    with Cons.IH True show ?thesis by simp
  next
    case False
    with assms have "\<not> P c" by blast
    with False show ?thesis by simp
  qed
qed

lemma takeWhile_sub_iff:
  assumes "\<And>c. P c \<Longrightarrow> Q c"
  shows "list_all P (takeWhile Q cs) \<longleftrightarrow>
         (dropWhile P cs = [] \<or> \<not> Q (hd (dropWhile P cs)))"
proof (induction cs)
  case Nil
  show ?case by simp
next
  case (Cons c cs)
  show ?case
  proof (cases "P c")
    case True
    with assms have "Q c" by blast
    with True Cons.IH show ?thesis by simp
  next
    case False
    then show ?thesis by (cases "Q c") simp_all
  qed
qed

lemma match_at_Cons:
  assumes fl: "\<And>c. first c \<Longrightarrow> is_letter c"
  shows "match_at first prev (c # cs) =
     (if \<not> in_word prev \<and> whole first (c # takeWhile is_word cs)
      then Some (Suc (length (takeWhile is_word cs))) else None)"
proof (cases "\<not> in_word prev \<and> first c")
  case False
  then show ?thesis
    using fl [of c]
    by (auto simp: match_at_def is_boundary_in_word in_word_def opt_nth_def longest_def
        whole_def starts_with_def is_letter_word)
next
  case True
  then have c: "first c" "is_letter c" "is_word c" and p: "\<not> in_word prev"
    using fl is_letter_word by auto
  let ?n = "Suc (length (takeWhile is_letter cs))"
  have bd: "is_boundary prev (opt_nth (c # cs) 0)"
    using c p by (simp add: is_boundary_in_word in_word_def opt_nth_def)
  have all: "\<forall>i<?n. i < length (c # cs) \<and> is_letter ((c # cs) ! i)"
  proof (intro allI impI)
    fix i assume i: "i < ?n"
    show "i < length (c # cs) \<and> is_letter ((c # cs) ! i)"
    proof (cases i)
      case 0
      then show ?thesis using c by simp
    next
      case (Suc j)
      with i have j: "j < length (takeWhile is_letter cs)" by simp
      then have "j < length cs"
        using length_takeWhile_le [of is_letter cs] by linarith
      moreover have "is_letter (cs ! j)"
        using j by (metis nth_mem set_takeWhileD takeWhile_nth)
      ultimately show ?thesis using Suc by simp
    qed
  qed
  have m: "match_at first prev (c # cs) = (if end_boundary ?n (c # cs) then Some ?n else None)"
    using bd c try_ends_letters [OF all] by (simp add: match_at_def longest_def)
  have lastl: "is_word ((c # cs) ! length (takeWhile is_letter cs))"
    using all [rule_format, of "length (takeWhile is_letter cs)"] by (simp add: is_letter_word)
  have eb: "end_boundary ?n (c # cs) \<longleftrightarrow>
      (dropWhile is_letter cs = [] \<or> \<not> is_word (hd (dropWhile is_letter cs)))"
  proof (cases "dropWhile is_letter cs = []")
    case True
    then have "length (takeWhile is_letter cs) = length cs"
      by (metis append_Nil2 takeWhile_dropWhile_id)
    then show ?thesis
      using True lastl by (simp add: end_boundary_def opt_nth_def is_boundary_def)
  next
    case False
    have "length (takeWhile is_letter cs) + length (dropWhile is_letter cs) = length cs"
      by (metis length_append takeWhile_dropWhile_id)
    with False have lt: "length (takeWhile is_letter cs) < length cs"
      by (cases "dropWhile is_letter cs") auto
    have "hd (dropWhile is_letter cs) = cs ! length (takeWhile is_letter cs)"
      using False by (simp add: hd_dropWhile dropWhile_nth hd_conv_nth)
    then show ?thesis
      using False lt lastl by (auto simp: end_boundary_def opt_nth_def is_boundary_def)
  qed
  have iff: "list_all is_letter (takeWhile is_word cs) \<longleftrightarrow>
      (dropWhile is_letter cs = [] \<or> \<not> is_word (hd (dropWhile is_letter cs)))"
    by (rule takeWhile_sub_iff) (rule is_letter_word)
  show ?thesis
  proof (cases "list_all is_letter (takeWhile is_word cs)")
    case True
    then have "takeWhile is_letter cs = takeWhile is_word cs"
      using takeWhile_sub_eq [of is_letter is_word cs] is_letter_word by blast
    with True m eb iff c p show ?thesis
      by (simp add: whole_def starts_with_def)
  next
    case False
    with m eb iff c p show ?thesis
      by (simp add: whole_def starts_with_def)
  qed
qed


lemma dropWhile_idem: "dropWhile P (dropWhile P xs) = dropWhile P xs"
  by (induction xs) auto

lemma take_Suc_takeWhile: "take (length (takeWhile P xs)) xs = takeWhile P xs"
  by (induction xs) auto

lemma drop_Suc_takeWhile: "drop (length (takeWhile P xs)) xs = dropWhile P xs"
  by (induction xs) auto

lemma findall_runs:
  assumes fl: "\<And>c. first c \<Longrightarrow> is_letter c"
  shows "findall first prev s =
     filter (whole first) (runs is_word (if in_word prev then dropWhile is_word s else s))"
  using fl
proof (induction first prev s rule: findall.induct)
  case (1 first prev)
  show ?case by simp
next
  case (2 first prev c cs)
  note fl = "2.prems"
  let ?W = "c # takeWhile is_word cs"
  let ?k = "Suc (length (takeWhile is_word cs))"
  show ?case
  proof (cases "\<not> in_word prev \<and> whole first ?W")
    case True
    then have m: "match_at first prev (c # cs) = Some ?k"
      using match_at_Cons [OF fl, of first prev c cs] by simp
    from True have fc: "first c" and lw: "list_all is_letter ?W"
      by (simp_all add: whole_def starts_with_def)
    then have wc: "is_word c" using fl is_letter_word by blast
    have "?k - 1 < length (c # cs)"
      using length_takeWhile_le [of is_word cs] by simp
    moreover have "(c # cs) ! (?k - 1) \<in> set ?W"
    proof -
      have "?W ! (?k - 1) \<in> set ?W" by (intro nth_mem) simp
      moreover have "?W ! (?k - 1) = (c # cs) ! (?k - 1)"
        by (cases "length (takeWhile is_word cs)") (simp_all add: takeWhile_nth)
      ultimately show ?thesis by simp
    qed
    then have "is_word ((c # cs) ! (?k - 1))"
      using lw is_letter_word unfolding list_all_iff by blast
    ultimately have iw: "in_word (opt_nth (c # cs) (?k - 1))"
      by (simp add: in_word_def opt_nth_def)
    have ih: "findall first (opt_nth (c # cs) (?k - 1)) (drop ?k (c # cs)) =
        filter (whole first) (runs is_word (dropWhile is_word (drop ?k (c # cs))))"
      using "2.IH"(2) [OF m fl] iw by simp
    have "findall first prev (c # cs) =
        take ?k (c # cs) # findall first (opt_nth (c # cs) (?k - 1)) (drop ?k (c # cs))"
      using m by simp
    also have "\<dots> = ?W # filter (whole first) (runs is_word (dropWhile is_word cs))"
      using ih by (simp add: take_Suc_takeWhile drop_Suc_takeWhile dropWhile_idem)
    also have "\<dots> = filter (whole first) (runs is_word (c # cs))"
      using True wc by simp
    finally show ?thesis using True by simp
  next
    case False
    then have m: "match_at first prev (c # cs) = None"
      using match_at_Cons [OF fl, of first prev c cs] by simp
    have ih: "findall first (Some c) cs =
        filter (whole first) (runs is_word (if is_word c then dropWhile is_word cs else cs))"
      using "2.IH"(1) [OF m fl] by (simp add: in_word_def)
    have eq: "findall first prev (c # cs) = findall first (Some c) cs"
      using m by simp
    show ?thesis
    proof (cases "in_word prev")
      case True
      then show ?thesis using eq ih by simp
    next
      case np: False
      with False have "\<not> whole first ?W" by simp
      with np show ?thesis using eq ih by simp
    qed
  qed
qed

subsection \<open>Lowercasing keeps the character classes\<close>

lemma code_less: "code c < 256"
  by (simp add: code_def)

lemma code_char_of: "n < 256 \<Longrightarrow> code (char_of n) = n"
  by (simp add: code_def)

lemma lower_char_upper: "is_upper c \<Longrightarrow> code (lower_char c) = code c + 32"
  by (simp add: lower_char_def Let_def is_upper_def code_char_of)

lemma lower_char_latin:
  assumes "192 \<le> code c" "code c \<le> 222" "code c \<noteq> 215"
  shows "code (lower_char c) = code c + 32"
proof -
  have "code c + 32 < 256" using assms by simp
  then show ?thesis using assms by (simp add: lower_char_def Let_def code_char_of)
qed

lemma lower_char_other:
  "\<not> is_upper c \<Longrightarrow> \<not> (192 \<le> code c \<and> code c \<le> 222 \<and> code c \<noteq> 215) \<Longrightarrow> lower_char c = c"
  by (auto simp: lower_char_def Let_def is_upper_def)

lemma word_latin_low: "192 \<le> code c \<Longrightarrow> code c \<le> 214 \<Longrightarrow> is_word c"
  unfolding is_word_def Let_def by blast

lemma word_latin_mid: "216 \<le> code c \<Longrightarrow> code c \<le> 246 \<Longrightarrow> is_word c"
  unfolding is_word_def Let_def by blast

lemma word_latin_high: "248 \<le> code c \<Longrightarrow> code c \<le> 255 \<Longrightarrow> is_word c"
  unfolding is_word_def Let_def by blast

lemma is_letter_lower [simp]: "is_letter (lower_char c) = is_letter c"
proof (cases "is_upper c")
  case True
  then have "is_lower (lower_char c)"
    using lower_char_upper [OF True] by (simp add: is_lower_def is_upper_def)
  with True show ?thesis by (simp add: is_letter_def)
next
  case nu: False
  show ?thesis
  proof (cases "192 \<le> code c \<and> code c \<le> 222 \<and> code c \<noteq> 215")
    case True
    then have "code (lower_char c) = code c + 32" by (simp add: lower_char_latin)
    with True show ?thesis by (simp add: is_letter_def is_lower_def is_upper_def)
  next
    case False
    with nu show ?thesis by (simp add: lower_char_other)
  qed
qed

lemma not_upper_lower [simp]: "\<not> is_upper (lower_char c)"
proof (cases "is_upper c")
  case True
  then show ?thesis
    using lower_char_upper [OF True] by (simp add: is_upper_def)
next
  case nu: False
  show ?thesis
  proof (cases "192 \<le> code c \<and> code c \<le> 222 \<and> code c \<noteq> 215")
    case True
    then have "code (lower_char c) = code c + 32" by (simp add: lower_char_latin)
    with True show ?thesis by (simp add: is_upper_def)
  next
    case False
    with nu show ?thesis by (simp add: lower_char_other)
  qed
qed

lemma is_word_lower [simp]: "is_word (lower_char c) = is_word c"
proof (cases "is_upper c")
  case True
  then have "is_letter c" by (simp add: is_letter_def)
  then have "is_word c" "is_word (lower_char c)"
    by (simp_all add: is_letter_word)
  then show ?thesis by simp
next
  case nu: False
  show ?thesis
  proof (cases "192 \<le> code c \<and> code c \<le> 222 \<and> code c \<noteq> 215")
    case True
    then have l: "code (lower_char c) = code c + 32" by (simp add: lower_char_latin)
    from True consider "192 \<le> code c \<and> code c \<le> 214" | "216 \<le> code c \<and> code c \<le> 222"
      by linarith
    then show ?thesis
    proof cases
      case 1
      then have "is_word c" by (simp add: word_latin_low)
      moreover from 1 l have "is_word (lower_char c)" by (simp add: word_latin_mid)
      ultimately show ?thesis by simp
    next
      case 2
      then have "is_word c" by (simp add: word_latin_mid)
      moreover from 2 l have "is_word (lower_char c)" by (simp add: word_latin_high)
      ultimately show ?thesis by simp
    qed
  next
    case False
    with nu show ?thesis by (simp add: lower_char_other)
  qed
qed

subsection \<open>Tokenizer\<close>

lemma runs_nonempty: "w \<in> set (runs P s) \<Longrightarrow> w \<noteq> [] \<and> list_all P w \<and> set w \<subseteq> set s"
proof (induction P s rule: runs.induct)
  case (1 P)
  then show ?case by simp
next
  case (2 P c cs)
  show ?case
  proof (cases "P c")
    case True
    from "2.prems" True consider "w = c # takeWhile P cs" | "w \<in> set (runs P (dropWhile P cs))"
      by auto
    then show ?thesis
    proof cases
      case 1
      then show ?thesis
        using True by (auto simp: list_all_iff dest: set_takeWhileD)
    next
      case 2
      with "2.IH"(1) [OF True] have "w \<noteq> [] \<and> list_all P w \<and> set w \<subseteq> set (dropWhile P cs)"
        by simp
      then show ?thesis
        using set_dropWhileD [of _ P cs] by auto
    qed
  next
    case False
    with "2.prems" "2.IH"(2) show ?thesis by auto
  qed
qed

lemma runs_cong: "\<forall>c\<in>set s. P c = Q c \<Longrightarrow> runs P s = runs Q s"
proof (induction P s rule: runs.induct)
  case (1 P)
  show ?case by simp
next
  case (2 P c cs)
  have tw: "takeWhile P cs = takeWhile Q cs"
    using "2.prems" by (intro takeWhile_cong) auto
  have dw: "dropWhile P cs = dropWhile Q cs"
    using "2.prems" by (intro dropWhile_cong) auto
  show ?case
  proof (cases "P c")
    case True
    have "\<forall>c\<in>set (dropWhile P cs). P c = Q c"
      using "2.prems" set_dropWhileD [of _ P cs] by auto
    with "2.IH"(1) [OF True] have "runs P (dropWhile P cs) = runs Q (dropWhile P cs)" by simp
    with True "2.prems" tw dw show ?thesis by simp
  next
    case False
    with "2.IH"(2) "2.prems" show ?thesis by simp
  qed
qed

lemma runs_map: "(\<And>c. P (f c) = P c) \<Longrightarrow> runs P (map f s) = map (map f) (runs P s)"
proof (induction P s rule: runs.induct)
  case (1 P)
  show ?case by simp
next
  case (2 P c cs)
  have pf: "P \<circ> f = P" using "2.prems" by (simp add: fun_eq_iff)
  show ?case
  proof (cases "P c")
    case True
    with "2.IH"(1) "2.prems" show ?thesis
      by (simp add: takeWhile_map dropWhile_map pf)
  next
    case False
    with "2.IH"(2) "2.prems" show ?thesis by simp
  qed
qed

lemma filter_whole_runs:
  "filter (whole is_letter) (runs is_word s) = filter (list_all is_letter) (runs is_word s)"
proof (rule filter_cong [OF refl])
  fix w assume "w \<in> set (runs is_word s)"
  then have "w \<noteq> []" using runs_nonempty by blast
  then show "whole is_letter w = list_all is_letter w"
    by (cases w) (simp_all add: whole_def starts_with_def)
qed

lemma tokenize_runs: "tokenize text = filter (list_all is_letter) (runs is_word (lower text))"
  using findall_runs [of is_letter None "lower text"]
  by (simp add: tokenize_def in_word_def filter_whole_runs)







subsection \<open>Entity extractor\<close>

lemma distinct_count_list_one: "distinct xs \<Longrightarrow> x \<in> set xs \<Longrightarrow> count_list xs x = 1"
  by (induction xs) auto

lemma candidates_runs:
  "findall is_upper None text = filter (whole is_upper) (runs is_word text)"
  using findall_runs [of is_upper None "text"] is_upper_letter
  by (simp add: in_word_def)

lemma entities_runs:
  "extract_named_entities text =
     {w \<in> set (runs is_word text). starts_with is_upper w \<and> list_all is_letter w} - set blacklist"
  by (auto simp: extract_named_entities_def candidates_runs whole_def)

lemma entities_not_blacklisted: "b \<in> set blacklist \<Longrightarrow> b \<notin> extract_named_entities text"
  by (simp add: entities_runs)

lemma entities_member:
  "e \<in> extract_named_entities text \<longleftrightarrow>
     e \<in> set (findall is_upper None text) \<and> e \<notin> set blacklist"
  by (auto simp: extract_named_entities_def)

lemma entities_listed_once:
  assumes "e \<in> extract_named_entities text"
  shows "count_list (sorted_list_of_set (extract_named_entities text)) e = 1"
proof -
  have "finite (extract_named_entities text)"
    by (simp add: extract_named_entities_def)
  with assms show ?thesis
    by (intro distinct_count_list_one) simp_all
qed

lemma entities_spec_agree:
  assumes "\<forall>c\<in>set text. is_word c \<longrightarrow> is_letter c"
  shows "extract_named_entities text = spec_named_entities text"
proof -
  have "\<forall>c\<in>set text. is_word c = is_letter c"
    using assms is_letter_word by auto
  then have r: "runs is_word text = runs is_letter text"
    by (rule runs_cong)
  have "filter (whole is_upper) (runs is_letter text) = filter (starts_with is_upper) (runs is_letter text)"
  proof (rule filter_cong [OF refl])
    fix w assume "w \<in> set (runs is_letter text)"
    then have "list_all is_letter w" using runs_nonempty by blast
    then show "whole is_upper w = starts_with is_upper w" by (simp add: whole_def)
  qed
  with r show ?thesis
    by (simp add: extract_named_entities_def candidates_runs spec_named_entities_def)
qed

text \<open>
  C4, as the specification states it: the entities are the maximal runs of letters of the
  text whose first character is uppercase, without the blacklist. The scan differs where
  a capitalised run of letters touches a digit, an underscore or a letter outside ASCII.
\<close>

theorem entities_digit_counterexample:
  "extract_named_entities ''Abc1'' = {} \<and> spec_named_entities ''Abc1'' = {''Abc''} \<and>
   extract_named_entities ''Abc1'' \<noteq> spec_named_entities ''Abc1''"
  by code_simp

text \<open>
  C4, amended: the entity set is the set of those maximal runs of word characters of
  the original text that start with an uppercase ASCII letter and consist of ASCII letters
  only, minus the exact matches of the blacklist. A blacklisted word is never in the
  result; a word that the scan finds and that is not blacklisted is in the result however
  often it occurs, and the sorted listing of the set holds it exactly once. Where every
  word character of the text is an ASCII letter, the result is the set of capitalised
  maximal runs of letters without the blacklist.
\<close>

theorem entities_word_runs:
  "extract_named_entities text =
     {w \<in> set (runs is_word text). starts_with is_upper w \<and> list_all is_letter w} - set blacklist \<and>
   (\<forall>b\<in>set blacklist. b \<notin> extract_named_entities text) \<and>
   (\<forall>e\<in>set (findall is_upper None text). e \<notin> set blacklist \<longrightarrow>
      e \<in> extract_named_entities text \<and>
      count_list (sorted_list_of_set (extract_named_entities text)) e = 1) \<and>
   ((\<forall>c\<in>set text. is_word c \<longrightarrow> is_letter c) \<longrightarrow>
      extract_named_entities text = spec_named_entities text)"
proof -
  have "e \<in> extract_named_entities text \<and>
      count_list (sorted_list_of_set (extract_named_entities text)) e = 1"
    if "e \<in> set (findall is_upper None text)" "e \<notin> set blacklist" for e
    using that entities_member entities_listed_once by blast
  then show ?thesis
    using entities_runs entities_not_blacklisted entities_spec_agree by blast
qed

theorem entities_word_runs_witness:
  "extract_named_entities ''The Quick fox. The Quick Fox ran.'' = {''Quick'', ''Fox''} \<and>
   spec_named_entities ''The Quick fox. The Quick Fox ran.'' = {''Quick'', ''Fox''} \<and>
   count_list (findall is_upper None ''The Quick fox. The Quick Fox ran.'') ''Quick'' = 2 \<and>
   count_list (sorted_list_of_set (extract_named_entities ''The Quick fox. The Quick Fox ran.''))
     ''Quick'' = 1 \<and>
   ''The'' \<notin> extract_named_entities ''The Quick fox. The Quick Fox ran.''"
proof -
  let ?t = "''The Quick fox. The Quick Fox ran.''"
  have h1: "\<forall>c\<in>set ?t. is_word c \<longrightarrow> is_letter c"
    by code_simp
  have h2: "''Quick'' \<in> set (findall is_upper None ?t) \<and> ''Quick'' \<notin> set blacklist"
    by code_simp
  have h3: "''The'' \<in> set blacklist"
    by code_simp
  have v1: "spec_named_entities ?t = {''Quick'', ''Fox''}"
    by code_simp
  have v2: "count_list (findall is_upper None ?t) ''Quick'' = 2"
    by code_simp
  note inst = entities_word_runs [of ?t]
  from inst h1 have 1: "extract_named_entities ?t = spec_named_entities ?t"
    by blast
  from inst h2 have 2: "count_list (sorted_list_of_set (extract_named_entities ?t)) ''Quick'' = 1"
    by blast
  from inst h3 have 3: "''The'' \<notin> extract_named_entities ?t"
    by blast
  from 1 2 3 v1 v2 show ?thesis by simp
qed

subsection \<open>Counters\<close>

lemma bump_keys: "map fst (bump x c) = (if x \<in> fst ` set c then map fst c else map fst c @ [x])"
  by (induction c) force+

lemma bump_key_set: "fst ` set (bump x c) = insert x (fst ` set c)"
proof -
  have "set (map fst (bump x c)) = insert x (set (map fst c))"
    unfolding bump_keys by auto
  then show ?thesis by simp
qed

lemma bump_count: "count_of (bump x c) k = (if k = x then Suc (count_of c k) else count_of c k)"
  by (induction c) (auto simp: count_of_def)

lemma bump_sum: "sum_list (map snd (bump x c)) = Suc (sum_list (map snd c))"
  by (induction c) auto

lemma bump_distinct: "distinct (map fst c) \<Longrightarrow> distinct (map fst (bump x c))"
  unfolding bump_keys by simp

lemma bump_positive: "\<forall>kc\<in>set c. 0 < snd kc \<Longrightarrow> \<forall>kc\<in>set (bump x c). 0 < snd kc"
  by (induction c) (force split: if_splits)+

lemma fold_bump_keys: "fst ` set (fold bump xs c) = set xs \<union> fst ` set c"
  by (induction xs arbitrary: c) (simp_all add: bump_key_set)

lemma fold_bump_count: "count_of (fold bump xs c) k = count_list xs k + count_of c k"
  by (induction xs arbitrary: c) (auto simp: bump_count)

lemma fold_bump_sum: "sum_list (map snd (fold bump xs c)) = length xs + sum_list (map snd c)"
  by (induction xs arbitrary: c) (auto simp: bump_sum)

lemma fold_bump_distinct: "distinct (map fst c) \<Longrightarrow> distinct (map fst (fold bump xs c))"
  by (induction xs arbitrary: c) (auto simp: bump_distinct)

lemma fold_bump_positive:
  "\<forall>kc\<in>set c. 0 < snd kc \<Longrightarrow> \<forall>kc\<in>set (fold bump xs c). 0 < snd kc"
proof (induction xs arbitrary: c)
  case Nil
  then show ?case by simp
next
  case (Cons x xs)
  from Cons.prems have "\<forall>kc\<in>set (bump x c). 0 < snd kc" by (rule bump_positive)
  then show ?case using Cons.IH by simp
qed

lemma Counter_keys: "fst ` set (Counter xs) = set xs"
  by (simp add: Counter_def fold_bump_keys)

lemma Counter_distinct: "distinct (map fst (Counter xs))"
  by (simp add: Counter_def fold_bump_distinct)

lemma Counter_count: "count_of (Counter xs) k = count_list xs k"
  unfolding Counter_def fold_bump_count by (simp add: count_of_def)

lemma Counter_sum: "sum_list (map snd (Counter xs)) = length xs"
  by (simp add: Counter_def fold_bump_sum)

lemma Counter_entry:
  assumes "(k, n) \<in> set (Counter xs)"
  shows "n = count_list xs k \<and> 0 < n \<and> k \<in> set xs"
proof -
  from assms Counter_distinct [of xs] have "map_of (Counter xs) k = Some n"
    by simp
  then have "count_of (Counter xs) k = n" by (simp add: count_of_def)
  then have n: "n = count_list xs k" by (simp add: Counter_count)
  from assms have "k \<in> fst ` set (Counter xs)" by force
  then have k: "k \<in> set xs" by (simp only: Counter_keys)
  then have "count_list xs k \<noteq> 0" by (simp add: count_list_0_iff)
  with n k show ?thesis by simp
qed

lemma Counter_length: "length (Counter xs) = card (set xs)"
proof -
  have "length (Counter xs) = length (map fst (Counter xs))" by simp
  also have "\<dots> = card (set (map fst (Counter xs)))"
    using Counter_distinct [of xs] by (simp only: distinct_card)
  finally show ?thesis by (simp add: Counter_keys)
qed

lemma Counter_Nil [simp]: "Counter [] = []"
  by (simp add: Counter_def)

lemma most_common_length: "length (most_common n items) = min (nat n) (length items)"
  by (simp add: most_common_def)

lemma most_common_subset: "set (most_common n items) \<subseteq> set items"
  using set_take_subset [of "nat n" "sort_key (\<lambda>kc. - int (snd kc)) items"]
  by (simp add: most_common_def)

lemma most_common_sorted: "sorted_wrt (\<lambda>a b. snd b \<le> snd a) (most_common n items)"
proof -
  have "sorted (map (\<lambda>kc. - int (snd kc)) (sort_key (\<lambda>kc. - int (snd kc)) items))"
    by (rule sorted_sort_key)
  then have "sorted_wrt (\<lambda>a b. snd b \<le> snd a) (sort_key (\<lambda>kc. - int (snd kc)) items)"
    by (simp add: sorted_map)
  then show ?thesis
    unfolding most_common_def by (rule sorted_wrt_take)
qed

lemma most_common_Nil [simp]: "most_common n [] = []"
  by (simp add: most_common_def)

lemma most_common_nonpos: "n \<le> 0 \<Longrightarrow> most_common n items = []"
  by (simp add: most_common_def)

subsection \<open>Sliding windows\<close>

lemma zip_star_short:
  assumes "0 < n" "length xs < n"
  shows "zip_star (map (\<lambda>i. drop i xs) [0..<n]) = []"
proof -
  have "drop (length xs) xs \<in> set (map (\<lambda>i. drop i xs) [0..<n])"
    using assms by (intro image_eqI [where x = "length xs"] | simp)+
  then have "[] \<in> set (map (\<lambda>i. drop i xs) [0..<n])" by simp
  then show ?thesis by (subst zip_star.simps) simp
qed

lemma zip_star_step:
  assumes "0 < n" "n \<le> length xs"
  shows "zip_star (map (\<lambda>i. drop i xs) [0..<n]) =
         take n xs # zip_star (map (\<lambda>i. drop i (tl xs)) [0..<n])"
proof -
  let ?ls = "map (\<lambda>i. drop i xs) [0..<n]"
  have ne: "?ls \<noteq> []" using assms by simp
  have nn: "[] \<notin> set ?ls" using assms by auto
  have hd: "map hd ?ls = take n xs"
  proof (rule nth_equalityI)
    show "length (map hd ?ls) = length (take n xs)" using assms by simp
  next
    fix i assume "i < length (map hd ?ls)"
    then have i: "i < n" by simp
    with assms have "i < length xs" by simp
    then show "map hd ?ls ! i = take n xs ! i"
      using i by (simp add: hd_drop_conv_nth)
  qed
  have tl: "map tl ?ls = map (\<lambda>i. drop i (tl xs)) [0..<n]"
    by (simp add: drop_Suc tl_drop)
  have "zip_star ?ls = map hd ?ls # zip_star (map tl ?ls)"
    by (metis ne nn zip_star.simps)
  then show ?thesis
    by (simp only: hd tl)
qed

lemma windows_short: "length xs < n \<Longrightarrow> windows n xs = []"
  by (simp add: windows_def)

lemma windows_step:
  assumes "0 < n" "n \<le> length xs"
  shows "windows n xs = take n xs # windows n (tl xs)"
proof -
  from assms obtain x xs' where xs: "xs = x # xs'" by (cases xs) auto
  with assms have "Suc (length xs) - n = Suc (Suc (length xs') - n)" by simp
  then have "windows n xs =
      map (\<lambda>j. take n (drop j xs)) (0 # map Suc [0..<Suc (length xs') - n])"
    unfolding windows_def by (simp only: upt_conv_Cons map_Suc_upt [symmetric] zero_less_Suc) 
  then show ?thesis
    using xs by (simp add: windows_def comp_def)
qed

lemma zip_star_windows:
  "0 < n \<Longrightarrow> zip_star (map (\<lambda>i. drop i xs) [0..<n]) = windows n xs"
proof (induction xs)
  case Nil
  then show ?case
    using zip_star_short [of n "[]"] by (simp add: windows_short)
next
  case (Cons x xs)
  show ?case
  proof (cases "n \<le> length (x # xs)")
    case True
    with Cons show ?thesis
      by (simp only: zip_star_step windows_step list.sel)
  next
    case False
    with Cons.prems show ?thesis by (simp add: zip_star_short windows_short)
  qed
qed

lemma length_windows: "length (windows n xs) = Suc (length xs) - n"
  by (simp add: windows_def)

lemma windows_length: "w \<in> set (windows n xs) \<Longrightarrow> length w = n"
  by (auto simp: windows_def)

lemma compute_trigrams_windows:
  "0 < n \<Longrightarrow> compute_trigrams n xs = Counter (windows (nat n) xs)"
  by (auto simp: compute_trigrams_def zip_star_windows windows_short)

lemma compute_trigrams_nonpos: "n \<le> 0 \<Longrightarrow> compute_trigrams n xs = []"
  by (auto simp: compute_trigrams_def zip_star.simps [of "[]"])

subsection \<open>Lemmatizer\<close>

lemma endswith_iff: "endswith w suf \<longleftrightarrow> (\<exists>p. w = p @ suf)"
proof
  assume "endswith w suf"
  then have "w = take (length w - length suf) w @ suf"
    by (metis append_take_drop_id endswith_def)
  then show "\<exists>p. w = p @ suf" ..
next
  assume "\<exists>p. w = p @ suf"
  then show "endswith w suf" by (auto simp: endswith_def)
qed

lemma endswith_append [simp]: "endswith (p @ suf) suf"
  by (simp add: endswith_def)

lemma drop_last_append [simp]: "length suf = k \<Longrightarrow> drop_last k (p @ suf) = p"
  by (simp add: drop_last_def)

text \<open>
  C2: the lemmatizer applies the first rule that matches, in the order "ies" (length
  above 3), "es", "ed" (length above 4), "ing" (length above 5), "s" (length above 3),
  and otherwise returns the word unchanged. A suffix is stripped by writing the word as
  a stem \<open>p\<close> followed by the suffix. The six sample words lemmatize as stated.
\<close>

theorem simple_lemmatize_rules:
  "(w = p @ ''ies'' \<and> length w > 3 \<longrightarrow> simple_lemmatize w = p @ ''y'') \<and>
   (\<not> (endswith w ''ies'' \<and> length w > 3) \<and> w = p @ ''es'' \<longrightarrow> simple_lemmatize w = p) \<and>
   (\<not> (endswith w ''ies'' \<and> length w > 3) \<and> \<not> endswith w ''es'' \<and>
      w = p @ ''ed'' \<and> length w > 4 \<longrightarrow> simple_lemmatize w = p) \<and>
   (\<not> (endswith w ''ies'' \<and> length w > 3) \<and> \<not> endswith w ''es'' \<and>
      \<not> (endswith w ''ed'' \<and> length w > 4) \<and>
      w = p @ ''ing'' \<and> length w > 5 \<longrightarrow> simple_lemmatize w = p) \<and>
   (\<not> (endswith w ''ies'' \<and> length w > 3) \<and> \<not> endswith w ''es'' \<and>
      \<not> (endswith w ''ed'' \<and> length w > 4) \<and> \<not> (endswith w ''ing'' \<and> length w > 5) \<and>
      w = p @ ''s'' \<and> length w > 3 \<longrightarrow> simple_lemmatize w = p) \<and>
   (\<not> (endswith w ''ies'' \<and> length w > 3) \<and> \<not> endswith w ''es'' \<and>
      \<not> (endswith w ''ed'' \<and> length w > 4) \<and> \<not> (endswith w ''ing'' \<and> length w > 5) \<and>
      \<not> (endswith w ''s'' \<and> length w > 3) \<longrightarrow> simple_lemmatize w = w) \<and>
   simple_lemmatize ''flies'' = ''fly'' \<and>
   simple_lemmatize ''boxes'' = ''box'' \<and>
   simple_lemmatize ''jumped'' = ''jump'' \<and>
   simple_lemmatize ''running'' = ''runn'' \<and>
   simple_lemmatize ''cats'' = ''cat'' \<and>
   simple_lemmatize ''is'' = ''is''"
proof -
  have r1: "w = p @ ''ies'' \<and> length w > 3 \<longrightarrow> simple_lemmatize w = p @ ''y''"
    by (auto simp: simple_lemmatize_def)
  have r2: "\<not> (endswith w ''ies'' \<and> length w > 3) \<and> w = p @ ''es'' \<longrightarrow> simple_lemmatize w = p"
    by (auto simp: simple_lemmatize_def)
  have r3: "\<not> (endswith w ''ies'' \<and> length w > 3) \<and> \<not> endswith w ''es'' \<and>
      w = p @ ''ed'' \<and> length w > 4 \<longrightarrow> simple_lemmatize w = p"
    by (auto simp: simple_lemmatize_def)
  have r4: "\<not> (endswith w ''ies'' \<and> length w > 3) \<and> \<not> endswith w ''es'' \<and>
      \<not> (endswith w ''ed'' \<and> length w > 4) \<and>
      w = p @ ''ing'' \<and> length w > 5 \<longrightarrow> simple_lemmatize w = p"
    by (auto simp: simple_lemmatize_def)
  have r5: "\<not> (endswith w ''ies'' \<and> length w > 3) \<and> \<not> endswith w ''es'' \<and>
      \<not> (endswith w ''ed'' \<and> length w > 4) \<and> \<not> (endswith w ''ing'' \<and> length w > 5) \<and>
      w = p @ ''s'' \<and> length w > 3 \<longrightarrow> simple_lemmatize w = p"
    by (auto simp: simple_lemmatize_def)
  have r6: "\<not> (endswith w ''ies'' \<and> length w > 3) \<and> \<not> endswith w ''es'' \<and>
      \<not> (endswith w ''ed'' \<and> length w > 4) \<and> \<not> (endswith w ''ing'' \<and> length w > 5) \<and>
      \<not> (endswith w ''s'' \<and> length w > 3) \<longrightarrow> simple_lemmatize w = w"
    by (simp add: simple_lemmatize_def)
  have e1: "simple_lemmatize ''flies'' = ''fly''"
    by (simp add: simple_lemmatize_def endswith_def drop_last_def)
  have e2: "simple_lemmatize ''boxes'' = ''box''"
    by (simp add: simple_lemmatize_def endswith_def drop_last_def)
  have e3: "simple_lemmatize ''jumped'' = ''jump''"
    by (simp add: simple_lemmatize_def endswith_def drop_last_def)
  have e4: "simple_lemmatize ''running'' = ''runn''"
    by (simp add: simple_lemmatize_def endswith_def drop_last_def)
  have e5: "simple_lemmatize ''cats'' = ''cat''"
    by (simp add: simple_lemmatize_def endswith_def drop_last_def)
  have e6: "simple_lemmatize ''is'' = ''is''"
    by (simp add: simple_lemmatize_def endswith_def drop_last_def)
  from r1 r2 r3 r4 r5 r6 e1 e2 e3 e4 e5 e6 show ?thesis by blast
qed

theorem simple_lemmatize_rules_witness:
  "simple_lemmatize ''ponies'' = ''pony'' \<and> simple_lemmatize ''foxes'' = ''fox'' \<and>
   simple_lemmatize ''walked'' = ''walk'' \<and> simple_lemmatize ''singing'' = ''sing'' \<and>
   simple_lemmatize ''dogs'' = ''dog'' \<and> simple_lemmatize ''was'' = ''was''"
proof -
  have h1: "''ponies'' = ''pon'' @ ''ies'' \<and> length ''ponies'' > 3"
    by simp
  have h2: "\<not> (endswith ''foxes'' ''ies'' \<and> length ''foxes'' > 3) \<and> ''foxes'' = ''fox'' @ ''es''"
    by (simp add: endswith_def)
  have h3: "\<not> (endswith ''walked'' ''ies'' \<and> length ''walked'' > 3) \<and>
      \<not> endswith ''walked'' ''es'' \<and> ''walked'' = ''walk'' @ ''ed'' \<and> length ''walked'' > 4"
    by (simp add: endswith_def)
  have h4: "\<not> (endswith ''singing'' ''ies'' \<and> length ''singing'' > 3) \<and>
      \<not> endswith ''singing'' ''es'' \<and> \<not> (endswith ''singing'' ''ed'' \<and> length ''singing'' > 4) \<and>
      ''singing'' = ''sing'' @ ''ing'' \<and> length ''singing'' > 5"
    by (simp add: endswith_def)
  have h5: "\<not> (endswith ''dogs'' ''ies'' \<and> length ''dogs'' > 3) \<and> \<not> endswith ''dogs'' ''es'' \<and>
      \<not> (endswith ''dogs'' ''ed'' \<and> length ''dogs'' > 4) \<and>
      \<not> (endswith ''dogs'' ''ing'' \<and> length ''dogs'' > 5) \<and>
      ''dogs'' = ''dog'' @ ''s'' \<and> length ''dogs'' > 3"
    by (simp add: endswith_def)
  have h6: "\<not> (endswith ''was'' ''ies'' \<and> length ''was'' > 3) \<and> \<not> endswith ''was'' ''es'' \<and>
      \<not> (endswith ''was'' ''ed'' \<and> length ''was'' > 4) \<and>
      \<not> (endswith ''was'' ''ing'' \<and> length ''was'' > 5) \<and>
      \<not> (endswith ''was'' ''s'' \<and> length ''was'' > 3)"
    by (simp add: endswith_def)
  from simple_lemmatize_rules [of "''ponies''" "''pon''"] h1
  have 1: "simple_lemmatize ''ponies'' = ''pon'' @ ''y''" by blast
  from simple_lemmatize_rules [of "''foxes''" "''fox''"] h2
  have 2: "simple_lemmatize ''foxes'' = ''fox''" by blast
  from simple_lemmatize_rules [of "''walked''" "''walk''"] h3
  have 3: "simple_lemmatize ''walked'' = ''walk''" by blast
  from simple_lemmatize_rules [of "''singing''" "''sing''"] h4
  have 4: "simple_lemmatize ''singing'' = ''sing''" by blast
  from simple_lemmatize_rules [of "''dogs''" "''dog''"] h5
  have 5: "simple_lemmatize ''dogs'' = ''dog''" by blast
  from simple_lemmatize_rules [of "''was''" "''''"] h6
  have 6: "simple_lemmatize ''was'' = ''was''" by blast
  from 1 2 3 4 5 6 show ?thesis by simp
qed

subsection \<open>N-gram frequencies\<close>

lemma trigram_entry:
  assumes "1 \<le> n" "kc \<in> set (compute_trigrams n toks)"
  shows "length (fst kc) = nat n \<and> 0 < snd kc"
proof -
  obtain k m where kc: "kc = (k, m)" by (cases kc)
  from assms kc have "(k, m) \<in> set (Counter (windows (nat n) toks))"
    by (simp add: compute_trigrams_windows)
  then have "0 < m" "k \<in> set (windows (nat n) toks)"
    using Counter_entry [of k m] by simp_all
  then show ?thesis using kc windows_length [of k] by simp
qed

lemma trigram_total:
  assumes "1 \<le> n" "n \<le> int (length toks)"
  shows "int (sum_list (map snd (compute_trigrams n toks))) = int (length toks) - n + 1"
proof -
  have "sum_list (map snd (compute_trigrams n toks)) = Suc (length toks) - nat n"
    using assms by (simp add: compute_trigrams_windows Counter_sum length_windows)
  with assms show ?thesis by linarith
qed

text \<open>
  C5, as the specification states it: for a sequence of length \<open>L\<close> and every window size
  \<open>N\<close> with \<open>L \<ge> N\<close>, the counts sum to \<open>L - N + 1\<close>. For \<open>N = 0\<close> the code builds
  no window at all (\<^verbatim>\<open>zip()\<close> of no list is empty), so the sum is 0 and not \<open>L + 1\<close>.
\<close>

theorem trigram_zero_counterexample:
  "compute_trigrams 0 [''a'', ''b''] = [] \<and> (0::int) \<le> int (length [''a'', ''b'']) \<and>
   int (sum_list (map snd (compute_trigrams 0 [''a'', ''b'']))) \<noteq> int (length [''a'', ''b'']) - 0 + 1"
  by code_simp

text \<open>
  C5, amended: for a window size \<open>N \<ge> 1\<close> the n-gram frequency counts every contiguous
  window of \<open>N\<close> consecutive tokens, keyed by the window: the count of a key is the number
  of its occurrences among the windows, every key has length \<open>N\<close> and a positive count.
  If \<open>L < N\<close> the mapping is empty; if \<open>1 \<le> N \<le> L\<close> the counts sum to \<open>L - N + 1\<close>; and
  for \<open>N \<le> 0\<close> the mapping is empty.
\<close>

theorem compute_trigrams_counts:
  "(1 \<le> n \<longrightarrow> compute_trigrams n toks = Counter (windows (nat n) toks) \<and>
      (\<forall>w. count_of (compute_trigrams n toks) w = count_list (windows (nat n) toks) w) \<and>
      (\<forall>kc\<in>set (compute_trigrams n toks). length (fst kc) = nat n \<and> 0 < snd kc)) \<and>
   (int (length toks) < n \<longrightarrow> compute_trigrams n toks = []) \<and>
   (1 \<le> n \<and> n \<le> int (length toks) \<longrightarrow>
      int (sum_list (map snd (compute_trigrams n toks))) = int (length toks) - n + 1) \<and>
   (n \<le> 0 \<longrightarrow> compute_trigrams n toks = [])"
proof (intro conjI impI allI ballI)
  assume "1 \<le> n"
  then show "compute_trigrams n toks = Counter (windows (nat n) toks)"
    by (simp add: compute_trigrams_windows)
next
  fix w assume "1 \<le> n"
  then show "count_of (compute_trigrams n toks) w = count_list (windows (nat n) toks) w"
    by (simp add: compute_trigrams_windows Counter_count)
next
  fix kc assume "1 \<le> n" "kc \<in> set (compute_trigrams n toks)"
  then show "length (fst kc) = nat n" using trigram_entry by blast
next
  fix kc assume "1 \<le> n" "kc \<in> set (compute_trigrams n toks)"
  then show "0 < snd kc" using trigram_entry by blast
next
  assume "int (length toks) < n"
  then show "compute_trigrams n toks = []" by (simp add: compute_trigrams_def)
next
  assume "1 \<le> n \<and> n \<le> int (length toks)"
  then show "int (sum_list (map snd (compute_trigrams n toks))) = int (length toks) - n + 1"
    using trigram_total by blast
next
  assume "n \<le> 0"
  then show "compute_trigrams n toks = []" by (rule compute_trigrams_nonpos)
qed

theorem compute_trigrams_counts_witness:
  "compute_trigrams 3 [''a'', ''b'', ''c'', ''a'', ''b'', ''c''] =
     [([''a'', ''b'', ''c''], 2), ([''b'', ''c'', ''a''], 1), ([''c'', ''a'', ''b''], 1)] \<and>
   int (sum_list (map snd (compute_trigrams 3 [''a'', ''b'', ''c'', ''a'', ''b'', ''c'']))) = 4 \<and>
   count_of (compute_trigrams 3 [''a'', ''b'', ''c'', ''a'', ''b'', ''c'']) [''a'', ''b'', ''c''] = 2 \<and>
   compute_trigrams 3 [''a'', ''b''] = [] \<and>
   compute_trigrams (-1) [''a'', ''b''] = []"
proof -
  let ?t = "[''a'', ''b'', ''c'', ''a'', ''b'', ''c'']"
  have h1: "(1::int) \<le> 3 \<and> 3 \<le> int (length ?t)" by simp
  have h2: "int (length [''a'', ''b'']) < 3" by simp
  have h3: "(-1::int) \<le> 0" by simp
  have v1: "Counter (windows (nat 3) ?t) =
     [([''a'', ''b'', ''c''], 2), ([''b'', ''c'', ''a''], 1), ([''c'', ''a'', ''b''], 1)]"
    by code_simp
  have v2: "count_list (windows (nat 3) ?t) [''a'', ''b'', ''c''] = 2"
    by code_simp
  from compute_trigrams_counts [of 3 ?t] h1
  have 1: "compute_trigrams 3 ?t = Counter (windows (nat 3) ?t)"
    and 2: "int (sum_list (map snd (compute_trigrams 3 ?t))) = int (length ?t) - 3 + 1"
    and 3: "count_of (compute_trigrams 3 ?t) [''a'', ''b'', ''c''] =
        count_list (windows (nat 3) ?t) [''a'', ''b'', ''c'']"
    by blast+
  from compute_trigrams_counts [of 3 "[''a'', ''b'']"] h2
  have 4: "compute_trigrams 3 [''a'', ''b''] = []" by blast
  from compute_trigrams_counts [of "-1" "[''a'', ''b'']"] h3
  have 5: "compute_trigrams (-1) [''a'', ''b''] = []" by blast
  from 1 2 3 4 5 v1 v2 show ?thesis by simp
qed

subsection \<open>The constructed processor\<close>

lemma construct_fields:
  "tokens (construct sw stem text nm) = tokenize text"
  "processed_tokens (construct sw stem text nm) = process_tokens sw stem (tokenize text)"
  "named_entities (construct sw stem text nm) = extract_named_entities text"
  "token_freq (construct sw stem text nm) = Counter (process_tokens sw stem (tokenize text))"
  "trigram_freq (construct sw stem text nm) = compute_trigrams 3 (process_tokens sw stem (tokenize text))"
  "name (construct sw stem text nm) = nm"
  "raw_text (construct sw stem text nm) = text"
  by (simp_all add: construct_def Let_def)

lemma length_process_tokens: "length (process_tokens sw stem toks) \<le> length toks"
proof -
  have "length (filter (\<lambda>t. t \<notin> sw \<or> t \<in> set keep_names) (map simple_lemmatize toks))
      \<le> length (map simple_lemmatize toks)"
    by (rule length_filter_le)
  then show ?thesis by (simp add: process_tokens_def Let_def)
qed

text \<open>
  C10: for every constructed processor the token-frequency mapping is a faithful multiset
  of the normalized token sequence: its keys are exactly the distinct elements of
  \<open>processed_tokens\<close>, each key once; every count is positive and is the number of
  occurrences of its key; the counts sum to the length of \<open>processed_tokens\<close>; and
  \<open>processed_tokens\<close> is never longer than \<open>tokens\<close>.
\<close>

theorem token_freq_multiset:
  "p = construct sw stem text nm \<Longrightarrow>
     fst ` set (token_freq p) = set (processed_tokens p) \<and>
     distinct (map fst (token_freq p)) \<and>
     (\<forall>kc\<in>set (token_freq p). 0 < snd kc \<and> snd kc = count_list (processed_tokens p) (fst kc)) \<and>
     (\<forall>t. count_of (token_freq p) t = count_list (processed_tokens p) t) \<and>
     sum_list (map snd (token_freq p)) = length (processed_tokens p) \<and>
     length (processed_tokens p) \<le> length (tokens p)"
proof (intro conjI allI ballI)
  assume p: "p = construct sw stem text nm"
  then have tf: "token_freq p = Counter (processed_tokens p)"
    by (simp add: construct_fields)
  show "fst ` set (token_freq p) = set (processed_tokens p)"
    unfolding tf by (rule Counter_keys)
  show "distinct (map fst (token_freq p))"
    unfolding tf by (rule Counter_distinct)
  show "count_of (token_freq p) t = count_list (processed_tokens p) t" for t
    unfolding tf by (rule Counter_count)
  show "sum_list (map snd (token_freq p)) = length (processed_tokens p)"
    unfolding tf by (rule Counter_sum)
  show "length (processed_tokens p) \<le> length (tokens p)"
    using p by (simp add: construct_fields length_process_tokens)
  show "0 < snd kc" "snd kc = count_list (processed_tokens p) (fst kc)"
    if "kc \<in> set (token_freq p)" for kc
    using that Counter_entry [of "fst kc" "snd kc" "processed_tokens p"]
    unfolding tf by simp_all
qed

theorem token_freq_multiset_witness:
  "token_freq (construct {''the'', ''ran''} (\<lambda>w. w) ''The Quick fox. The Quick Fox ran.'' ''t'')
     = [(''quick'', 2), (''fox'', 2)] \<and>
   sum_list (map snd (token_freq
     (construct {''the'', ''ran''} (\<lambda>w. w) ''The Quick fox. The Quick Fox ran.'' ''t''))) = 4 \<and>
   count_of (token_freq
     (construct {''the'', ''ran''} (\<lambda>w. w) ''The Quick fox. The Quick Fox ran.'' ''t'')) ''fox'' = 2 \<and>
   length (tokens (construct {''the'', ''ran''} (\<lambda>w. w) ''The Quick fox. The Quick Fox ran.'' ''t'')) = 7"
proof -
  let ?p = "construct {''the'', ''ran''} (\<lambda>w. w) ''The Quick fox. The Quick Fox ran.'' ''t''"
  have v1: "processed_tokens ?p = [''quick'', ''fox'', ''quick'', ''fox'']"
    by code_simp
  have v2: "token_freq ?p = [(''quick'', 2), (''fox'', 2)]"
    by code_simp
  have v3: "length (tokens ?p) = 7"
    by code_simp
  from token_freq_multiset [OF refl, of "{''the'', ''ran''}" "\<lambda>w. w" "''The Quick fox. The Quick Fox ran.''" "''t''"]
  have 1: "sum_list (map snd (token_freq ?p)) = length (processed_tokens ?p)"
    and 2: "count_of (token_freq ?p) ''fox'' = count_list (processed_tokens ?p) ''fox''"
    by blast+
  from 1 2 v1 v2 v3 show ?thesis by simp
qed

subsection \<open>Top-N accessors\<close>

lemma most_common_le: "0 \<le> n \<Longrightarrow> int (length (most_common n items)) \<le> n"
  by (simp add: most_common_length)

lemma most_common_le_keys:
  "distinct (map fst items) \<Longrightarrow> length (most_common n items) \<le> card (fst ` set items)"
proof -
  assume "distinct (map fst items)"
  then have "card (set (map fst items)) = length (map fst items)"
    by (rule distinct_card)
  then show ?thesis by (simp add: most_common_length)
qed

lemma trigram_freq_distinct: "distinct (map fst (compute_trigrams n toks))"
  by (simp add: compute_trigrams_def Counter_distinct)

text \<open>
  C6, as the specification states it: for every \<open>n\<close> the list \<open>top_tokens(n)\<close> has at most
  \<open>n\<close> entries. For a negative \<open>n\<close> the list is empty, and its length 0 is above \<open>n\<close>.
\<close>

theorem top_negative_counterexample:
  "length (fst (top_tokens (-1) (construct {} (\<lambda>w. w) ''a b'' ''t''))) = 0 \<and>
   \<not> int (length (fst (top_tokens (-1) (construct {} (\<lambda>w. w) ''a b'' ''t'')))) \<le> -1"
  by code_simp

text \<open>
  C6, amended: for every constructed processor, \<open>top_tokens(n)\<close> is a list of
  (token, count) entries of the token frequencies, of length at most \<open>n\<close> when \<open>n \<ge> 0\<close>
  and empty when \<open>n \<le> 0\<close>, and never longer than the number of distinct normalized
  tokens; \<open>top_trigrams(k)\<close> is a list of (3-tuple, count) entries of the trigram
  frequencies, of length at most \<open>k\<close> when \<open>k \<ge> 0\<close> and empty when \<open>k \<le> 0\<close>, and never
  longer than the number of distinct trigrams; in both lists the counts do not increase.
\<close>

theorem top_lists_bounded:
  "p = construct sw stem text nm \<Longrightarrow>
     (0 \<le> n \<longrightarrow> int (length (fst (top_tokens n p))) \<le> n) \<and>
     (n \<le> 0 \<longrightarrow> fst (top_tokens n p) = []) \<and>
     length (fst (top_tokens n p)) \<le> card (set (processed_tokens p)) \<and>
     set (fst (top_tokens n p)) \<subseteq> set (token_freq p) \<and>
     sorted_wrt (\<lambda>a b. snd b \<le> snd a) (fst (top_tokens n p)) \<and>
     (0 \<le> k \<longrightarrow> int (length (fst (top_trigrams k p))) \<le> k) \<and>
     (k \<le> 0 \<longrightarrow> fst (top_trigrams k p) = []) \<and>
     length (fst (top_trigrams k p)) \<le> card (set (windows 3 (processed_tokens p))) \<and>
     set (fst (top_trigrams k p)) \<subseteq> set (trigram_freq p) \<and>
     sorted_wrt (\<lambda>a b. snd b \<le> snd a) (fst (top_trigrams k p)) \<and>
     (\<forall>gc\<in>set (fst (top_trigrams k p)). length (fst gc) = 3)"
proof (intro conjI impI ballI)
  assume p: "p = construct sw stem text nm"
  then have tf: "token_freq p = Counter (processed_tokens p)"
    and gf: "trigram_freq p = compute_trigrams 3 (processed_tokens p)"
    by (simp_all add: construct_fields)
  show "int (length (fst (top_tokens n p))) \<le> n" if "0 \<le> n"
    using that by (simp add: top_tokens_def most_common_le)
  show "fst (top_tokens n p) = []" if "n \<le> 0"
    using that by (simp add: top_tokens_def most_common_nonpos)
  show "length (fst (top_tokens n p)) \<le> card (set (processed_tokens p))"
    using most_common_le_keys [OF Counter_distinct, of n "processed_tokens p"]
    by (simp add: top_tokens_def tf Counter_keys)
  show "set (fst (top_tokens n p)) \<subseteq> set (token_freq p)"
    by (simp add: top_tokens_def most_common_subset)
  show "sorted_wrt (\<lambda>a b. snd b \<le> snd a) (fst (top_tokens n p))"
    by (simp add: top_tokens_def most_common_sorted)
  show "int (length (fst (top_trigrams k p))) \<le> k" if "0 \<le> k"
    using that by (simp add: top_trigrams_def most_common_le)
  show "fst (top_trigrams k p) = []" if "k \<le> 0"
    using that by (simp add: top_trigrams_def most_common_nonpos)
  show "length (fst (top_trigrams k p)) \<le> card (set (windows 3 (processed_tokens p)))"
    using most_common_le_keys [OF Counter_distinct, of k "windows 3 (processed_tokens p)"]
    by (simp add: top_trigrams_def gf compute_trigrams_windows Counter_keys)
  show sub: "set (fst (top_trigrams k p)) \<subseteq> set (trigram_freq p)"
    by (simp add: top_trigrams_def most_common_subset)
  show "sorted_wrt (\<lambda>a b. snd b \<le> snd a) (fst (top_trigrams k p))"
    by (simp add: top_trigrams_def most_common_sorted)
  show "length (fst gc) = 3" if "gc \<in> set (fst (top_trigrams k p))" for gc
  proof -
    from that sub have "gc \<in> set (compute_trigrams 3 (processed_tokens p))"
      unfolding gf by blast
    then show ?thesis
      using trigram_entry [of 3 gc "processed_tokens p"] by simp
  qed
qed

theorem top_lists_bounded_witness:
  "fst (top_tokens 1 (construct {''the'', ''ran''} (\<lambda>w. w) ''The Quick fox. The Quick Fox ran.'' ''t''))
     = [(''quick'', 2)] \<and>
   fst (top_tokens (-1) (construct {''the'', ''ran''} (\<lambda>w. w) ''The Quick fox. The Quick Fox ran.'' ''t''))
     = [] \<and>
   int (length (fst (top_trigrams 1
     (construct {''the'', ''ran''} (\<lambda>w. w) ''The Quick fox. The Quick Fox ran.'' ''t'')))) \<le> 1 \<and>
   list_all (\<lambda>gc. length (fst gc) = 3) (fst (top_trigrams 1
     (construct {''the'', ''ran''} (\<lambda>w. w) ''The Quick fox. The Quick Fox ran.'' ''t'')))"
proof -
  let ?p = "construct {''the'', ''ran''} (\<lambda>w. w) ''The Quick fox. The Quick Fox ran.'' ''t''"
  have v1: "fst (top_tokens 1 ?p) = [(''quick'', 2)]"
    by code_simp
  have h1: "(0::int) \<le> 1" by simp
  have h2: "(-1::int) \<le> 0" by simp
  from top_lists_bounded [OF refl, of 1 "{''the'', ''ran''}" "\<lambda>w. w" "''The Quick fox. The Quick Fox ran.''" "''t''" 1] h1
  have 1: "int (length (fst (top_trigrams 1 ?p))) \<le> 1"
    and 2: "\<forall>gc\<in>set (fst (top_trigrams 1 ?p)). length (fst gc) = 3"
    by blast+
  from top_lists_bounded [OF refl, of "-1" "{''the'', ''ran''}" "\<lambda>w. w" "''The Quick fox. The Quick Fox ran.''" "''t''" 1] h2
  have 3: "fst (top_tokens (-1) ?p) = []"
    by blast
  from 1 2 3 v1 show ?thesis by (simp add: list_all_iff)
qed

subsection \<open>Normalizer\<close>

lemma process_tokens_Nil [simp]: "process_tokens sw stem [] = []"
  by (simp add: process_tokens_def)

lemma process_tokens_Cons:
  "process_tokens sw stem (t # ts) =
     (if simple_lemmatize t \<in> sw \<and> simple_lemmatize t \<notin> set keep_names
      then process_tokens sw stem ts
      else stem (simple_lemmatize t) # process_tokens sw stem ts)"
  by (simp add: process_tokens_def Let_def)

lemma process_tokens_filter:
  "process_tokens sw stem toks =
     map stem (filter (\<lambda>t. \<not> (t \<in> sw \<and> t \<notin> set keep_names)) (map simple_lemmatize toks))"
proof -
  have "(\<lambda>t. t \<notin> sw \<or> t \<in> set keep_names) = (\<lambda>t. \<not> (t \<in> sw \<and> t \<notin> set keep_names))"
    by auto
  then show ?thesis by (simp add: process_tokens_def Let_def)
qed

lemma process_tokens_keeps:
  assumes "t \<in> set toks" "simple_lemmatize t \<in> set keep_names"
  shows "stem (simple_lemmatize t) \<in> set (process_tokens sw stem toks)"
  using assms by (auto simp: process_tokens_def Let_def)

lemma process_tokens_drops_only:
  assumes "t \<in> set toks" "simple_lemmatize t \<notin> sw"
  shows "stem (simple_lemmatize t) \<in> set (process_tokens sw stem toks)"
  using assms by (auto simp: process_tokens_def Let_def)

text \<open>
  C3: the normalized sequence is the result of lemmatizing each token, dropping a
  lemmatized token if and only if it is in the stopword set and not one of romeo, juliet,
  verona, and stemming each survivor. Token by token: a dropped token contributes nothing
  (no placeholder) and a kept one contributes its stemmed lemma in front of the rest, so
  the survivors keep their relative order (they form a subsequence of the lemmatized
  tokens); and a token whose lemma is in the allow-list survives the filter whatever the
  stopword set holds.
\<close>

theorem process_tokens_pipeline:
  "process_tokens sw stem toks =
     map stem (filter (\<lambda>t. \<not> (t \<in> sw \<and> t \<notin> {''romeo'', ''juliet'', ''verona''}))
       (map simple_lemmatize toks)) \<and>
   process_tokens sw stem [] = [] \<and>
   process_tokens sw stem (t # toks) =
     (if simple_lemmatize t \<in> sw \<and> simple_lemmatize t \<notin> {''romeo'', ''juliet'', ''verona''}
      then process_tokens sw stem toks
      else stem (simple_lemmatize t) # process_tokens sw stem toks) \<and>
   subseq (filter (\<lambda>t. \<not> (t \<in> sw \<and> t \<notin> {''romeo'', ''juliet'', ''verona''}))
       (map simple_lemmatize toks)) (map simple_lemmatize toks) \<and>
   (\<forall>u\<in>set toks. simple_lemmatize u \<in> {''romeo'', ''juliet'', ''verona''} \<longrightarrow>
      simple_lemmatize u \<in> set (filter (\<lambda>t. t \<notin> sw \<or> t \<in> {''romeo'', ''juliet'', ''verona''})
        (map simple_lemmatize toks)) \<and>
      stem (simple_lemmatize u) \<in> set (process_tokens sw stem toks))"
proof -
  have k: "set keep_names = {''romeo'', ''juliet'', ''verona''}"
    by (simp add: keep_names_def)
  have 1: "process_tokens sw stem toks =
     map stem (filter (\<lambda>t. \<not> (t \<in> sw \<and> t \<notin> {''romeo'', ''juliet'', ''verona''}))
       (map simple_lemmatize toks))"
    using process_tokens_filter [of sw stem toks] unfolding k .
  have 2: "process_tokens sw stem (t # toks) =
     (if simple_lemmatize t \<in> sw \<and> simple_lemmatize t \<notin> {''romeo'', ''juliet'', ''verona''}
      then process_tokens sw stem toks
      else stem (simple_lemmatize t) # process_tokens sw stem toks)"
    using process_tokens_Cons [of sw stem t toks] unfolding k .
  have 3: "subseq (filter (\<lambda>t. \<not> (t \<in> sw \<and> t \<notin> {''romeo'', ''juliet'', ''verona''}))
       (map simple_lemmatize toks)) (map simple_lemmatize toks)"
    by (rule subseq_filter_left)
  have 4: "simple_lemmatize u \<in> set (filter (\<lambda>t. t \<notin> sw \<or> t \<in> {''romeo'', ''juliet'', ''verona''})
        (map simple_lemmatize toks)) \<and>
      stem (simple_lemmatize u) \<in> set (process_tokens sw stem toks)"
    if "u \<in> set toks" "simple_lemmatize u \<in> {''romeo'', ''juliet'', ''verona''}" for u
  proof -
    from that have kn: "simple_lemmatize u \<in> set keep_names" unfolding k by simp
    from that have "simple_lemmatize u \<in> set (filter (\<lambda>t. t \<notin> sw \<or> t \<in> {''romeo'', ''juliet'', ''verona''})
        (map simple_lemmatize toks))"
      by simp
    moreover have "stem (simple_lemmatize u) \<in> set (process_tokens sw stem toks)"
      using that(1) kn by (rule process_tokens_keeps)
    ultimately show ?thesis ..
  qed
  from 1 2 3 4 show ?thesis by (simp only: process_tokens_Nil simp_thms) blast
qed

theorem process_tokens_pipeline_witness:
  "process_tokens {''the'', ''romeo'', ''is''} (\<lambda>w. take 4 w) [''the'', ''romeo'', ''loves'', ''the'', ''cats'']
     = [''rome'', ''lov'', ''cat''] \<and>
   ''rome'' \<in> set (process_tokens {''the'', ''romeo'', ''is''} (\<lambda>w. take 4 w)
     [''the'', ''romeo'', ''loves'', ''the'', ''cats''])"
proof -
  let ?sw = "{''the'', ''romeo'', ''is''}"
  let ?toks = "[''the'', ''romeo'', ''loves'', ''the'', ''cats'']"
  have h: "''romeo'' \<in> set ?toks \<and> simple_lemmatize ''romeo'' \<in> {''romeo'', ''juliet'', ''verona''}"
    by code_simp
  have v: "map (\<lambda>w. take 4 w) (filter (\<lambda>t. \<not> (t \<in> ?sw \<and> t \<notin> {''romeo'', ''juliet'', ''verona''}))
       (map simple_lemmatize ?toks)) = [''rome'', ''lov'', ''cat'']"
    by code_simp
  have s: "(\<lambda>w. take 4 w) (simple_lemmatize ''romeo'') = ''rome''"
    by code_simp
  note inst = process_tokens_pipeline [of ?sw "\<lambda>w. take 4 w" ?toks "''the''"]
  from inst have 1: "process_tokens ?sw (\<lambda>w. take 4 w) ?toks =
      map (\<lambda>w. take 4 w) (filter (\<lambda>t. \<not> (t \<in> ?sw \<and> t \<notin> {''romeo'', ''juliet'', ''verona''}))
       (map simple_lemmatize ?toks))"
    by blast
  from inst h have 2: "(\<lambda>w. take 4 w) (simple_lemmatize ''romeo'') \<in> set (process_tokens ?sw (\<lambda>w. take 4 w) ?toks)"
    by blast
  from 1 v have a: "process_tokens ?sw (\<lambda>w. take 4 w) ?toks = [''rome'', ''lov'', ''cat'']"
    by simp
  from 2 s have b: "''rome'' \<in> set (process_tokens ?sw (\<lambda>w. take 4 w) ?toks)"
    by simp
  from a b show ?thesis by blast
qed

subsection \<open>Empty input\<close>

lemma runs_lower: "runs is_word (lower s) = map lower (runs is_word s)"
  unfolding lower_def by (subst runs_map) (simp_all add: lower_def [abs_def])

lemma no_tokens_no_entities:
  assumes "tokenize text = []"
  shows "extract_named_entities text = {}"
proof (rule ccontr)
  assume "extract_named_entities text \<noteq> {}"
  then obtain e where "e \<in> extract_named_entities text" by blast
  then have r: "e \<in> set (runs is_word text)" and l: "list_all is_letter e"
    by (simp_all add: entities_runs)
  from r have "lower e \<in> set (runs is_word (lower text))"
    by (simp add: runs_lower)
  moreover from l have "list_all is_letter (lower e)"
    by (simp add: lower_def list_all_iff)
  ultimately have "lower e \<in> set (tokenize text)"
    by (simp add: tokenize_runs)
  with assms show False by simp
qed

lemma compute_trigrams_Nil [simp]: "compute_trigrams 3 [] = []"
  by (simp add: compute_trigrams_def)

text \<open>
  C7: for every input whose tokenization is empty, construction yields a processor with
  no tokens, no normalized tokens, empty token and trigram frequencies and an empty entity
  set; \<open>top_tokens(n)\<close> and \<open>top_trigrams(k)\<close> are empty for every \<open>n\<close> and \<open>k\<close>, and the
  summary reports zero counts. Construction is a total function, so it raises no error.
\<close>

theorem empty_tokenization:
  "tokenize text = [] \<Longrightarrow> p = construct sw stem text nm \<Longrightarrow>
     tokens p = [] \<and> processed_tokens p = [] \<and> token_freq p = [] \<and> trigram_freq p = [] \<and>
     named_entities p = {} \<and> fst (top_tokens n p) = [] \<and> fst (top_trigrams k p) = [] \<and>
     fst (summary p) = \<lparr>header = nm, total_tokens = 0, entity_count = 0, entities = [],
                         token_lines = [], trigram_lines = []\<rparr>"
proof -
  assume t: "tokenize text = []" and p: "p = construct sw stem text nm"
  from t have e: "extract_named_entities text = {}"
    by (rule no_tokens_no_entities)
  from t e p have f: "tokens p = []" "processed_tokens p = []" "token_freq p = []"
    "trigram_freq p = []" "named_entities p = {}" "name p = nm"
    by (simp_all add: construct_fields)
  then have a: "fst (top_tokens n p) = []" "fst (top_trigrams k p) = []" for n k
    by (simp_all add: top_tokens_def top_trigrams_def)
  have "fst (summary p) = \<lparr>header = nm, total_tokens = 0, entity_count = 0, entities = [],
                         token_lines = [], trigram_lines = []\<rparr>"
    using f by (simp add: summary_def top_tokens_def top_trigrams_def)
  with f a show ?thesis by simp
qed

theorem empty_tokenization_witness:
  "token_freq (construct {''the''} (\<lambda>w. w) '''' ''t'') = [] \<and>
   trigram_freq (construct {''the''} (\<lambda>w. w) '''' ''t'') = [] \<and>
   named_entities (construct {''the''} (\<lambda>w. w) ''12, 34! A1'' ''t'') = {} \<and>
   fst (top_tokens 20 (construct {''the''} (\<lambda>w. w) ''12, 34! A1'' ''t'')) = [] \<and>
   fst (top_trigrams 10 (construct {''the''} (\<lambda>w. w) ''12, 34! A1'' ''t'')) = []"
proof -
  have h1: "tokenize '''' = []" by code_simp
  have h2: "tokenize ''12, 34! A1'' = []" by code_simp
  from empty_tokenization [OF h1 refl, of "{''the''}" "\<lambda>w. w" "''t''" 20 10]
  have 1: "token_freq (construct {''the''} (\<lambda>w. w) '''' ''t'') = []"
    and 2: "trigram_freq (construct {''the''} (\<lambda>w. w) '''' ''t'') = []"
    by simp_all
  from empty_tokenization [OF h2 refl, of "{''the''}" "\<lambda>w. w" "''t''" 20 10]
  have 3: "named_entities (construct {''the''} (\<lambda>w. w) ''12, 34! A1'' ''t'') = {}"
    and 4: "fst (top_tokens 20 (construct {''the''} (\<lambda>w. w) ''12, 34! A1'' ''t'')) = []"
    and 5: "fst (top_trigrams 10 (construct {''the''} (\<lambda>w. w) ''12, 34! A1'' ''t'')) = []"
    by simp_all
  from 1 2 3 4 5 show ?thesis by simp
qed

subsection \<open>Frame and determinism\<close>

text \<open>
  C8: the accessors and the summary leave the processor as it is: after \<open>top_tokens(n)\<close>,
  \<open>top_trigrams(k)\<close> or \<open>summary()\<close>, and after any sequence of such calls, every field is
  unchanged; for a constructed processor the fields are still the ones construction
  computed from the text.
\<close>

theorem methods_frame:
  "snd (top_tokens n p) = p \<and> snd (top_trigrams k p) = p \<and> snd (summary p) = p \<and>
   run_calls cs p = p \<and>
   tokens (run_calls cs (construct sw stem text nm)) = tokenize text \<and>
   processed_tokens (run_calls cs (construct sw stem text nm)) =
     process_tokens sw stem (tokenize text) \<and>
   named_entities (run_calls cs (construct sw stem text nm)) = extract_named_entities text \<and>
   token_freq (run_calls cs (construct sw stem text nm)) =
     Counter (process_tokens sw stem (tokenize text)) \<and>
   trigram_freq (run_calls cs (construct sw stem text nm)) =
     compute_trigrams 3 (process_tokens sw stem (tokenize text))"
proof -
  have a: "snd (top_tokens n p) = p" for n p by (simp add: top_tokens_def)
  have b: "snd (top_trigrams k p) = p" for k p by (simp add: top_trigrams_def)
  have c: "snd (summary p) = p" for p by (simp add: summary_def top_tokens_def top_trigrams_def)
  have step: "run_call x p = p" for x p
    using a b c by (cases x) simp_all
  have "fold run_call cs p = p" for p
    by (induction cs) (simp_all add: step)
  then have d: "run_calls cs p = p" for p by (simp add: run_calls_def)
  from a b c d show ?thesis by (simp add: construct_fields)
qed

theorem methods_frame_witness:
  "run_calls [Summary, TopTokens 2, TopTrigrams (-1), Summary, TopTokens 0]
     (construct {''the''} (\<lambda>w. w) ''The cat sat. The cat ran.'' ''t'')
   = construct {''the''} (\<lambda>w. w) ''The cat sat. The cat ran.'' ''t'' \<and>
   tokens (run_calls [Summary, TopTokens 2]
     (construct {''the''} (\<lambda>w. w) ''The cat sat. The cat ran.'' ''t''))
   = [''the'', ''cat'', ''sat'', ''the'', ''cat'', ''ran'']"
proof -
  have v: "tokenize ''The cat sat. The cat ran.'' = [''the'', ''cat'', ''sat'', ''the'', ''cat'', ''ran'']"
    by code_simp
  from methods_frame [of 0 "construct {''the''} (\<lambda>w. w) ''The cat sat. The cat ran.'' ''t''" 0
      "[Summary, TopTokens 2, TopTrigrams (-1), Summary, TopTokens 0]"]
  have 1: "run_calls [Summary, TopTokens 2, TopTrigrams (-1), Summary, TopTokens 0]
     (construct {''the''} (\<lambda>w. w) ''The cat sat. The cat ran.'' ''t'')
   = construct {''the''} (\<lambda>w. w) ''The cat sat. The cat ran.'' ''t''"
    by blast
  from methods_frame [of 0 undefined 0 "[Summary, TopTokens 2]" "{''the''}" "\<lambda>w. w"
      "''The cat sat. The cat ran.''" "''t''"]
  have 2: "tokens (run_calls [Summary, TopTokens 2]
     (construct {''the''} (\<lambda>w. w) ''The cat sat. The cat ran.'' ''t''))
   = tokenize ''The cat sat. The cat ran.''"
    by blast
  from 1 2 v show ?thesis by simp
qed



end
